theory Spec2Isabelle
  imports
    Main
    "HOL-Library.AList"
    "HOL-Library.Char_ord"
    "HOL-Library.List_Lexorder"
    "HOL-Library.Multiset"
begin

section \<open>Data model of the rule engine (heartdesease.py)\<close>

text \<open>
  Fact values are Python objects; the knowledge base and the user interface only ever
  store integers and text, so a value is an integer or a string. Strings are byte
  lists, ordered lexicographically as Python orders \<open>str\<close>.
\<close>

datatype val = IntV int | StrV string

text \<open>The only exception the engine can meet: an ordering comparison of an integer
  with a string.\<close>

datatype error = TypeError

type_synonym condition = "string \<times> string \<times> val"

record InferenceRule =
  "identifier" :: string
  conditions :: "condition list"
  conclusion :: "string \<times> val"
  priority :: int

text \<open>A \<open>dict\<close> keeps its keys in insertion order: an association list, read with
  \<open>map_of\<close> and written with \<open>AList.update\<close> (an existing key keeps its place, a new key
  goes to the end).\<close>

type_synonym facts = "(string \<times> val) list"

section \<open>check\_condition\<close>

text \<open>Python's \<open>==\<close> and \<open>!=\<close> are defined on every pair of objects; an integer never
  equals a string.\<close>

definition py_eq :: "val \<Rightarrow> val \<Rightarrow> error + bool" where
  "py_eq a b = Inr (a = b)"

definition py_ne :: "val \<Rightarrow> val \<Rightarrow> error + bool" where
  "py_ne a b = Inr (a \<noteq> b)"

fun py_ge :: "val \<Rightarrow> val \<Rightarrow> error + bool" where
  "py_ge (IntV a) (IntV b) = Inr (a \<ge> b)"
| "py_ge (StrV a) (StrV b) = Inr (a \<ge> b)"
| "py_ge _ _ = Inl TypeError"

fun py_le :: "val \<Rightarrow> val \<Rightarrow> error + bool" where
  "py_le (IntV a) (IntV b) = Inr (a \<le> b)"
| "py_le (StrV a) (StrV b) = Inr (a \<le> b)"
| "py_le _ _ = Inl TypeError"

fun py_gt :: "val \<Rightarrow> val \<Rightarrow> error + bool" where
  "py_gt (IntV a) (IntV b) = Inr (a > b)"
| "py_gt (StrV a) (StrV b) = Inr (a > b)"
| "py_gt _ _ = Inl TypeError"

fun py_lt :: "val \<Rightarrow> val \<Rightarrow> error + bool" where
  "py_lt (IntV a) (IntV b) = Inr (a < b)"
| "py_lt (StrV a) (StrV b) = Inr (a < b)"
| "py_lt _ _ = Inl TypeError"

text \<open>The dictionary \<open>ops\<close> of \<open>check_condition\<close>, from operator text to comparison.\<close>

definition ops :: "(string \<times> (val \<Rightarrow> val \<Rightarrow> error + bool)) list" where
  "ops = [(''=='', py_eq), (''!='', py_ne), (''>='', py_ge),
          (''<='', py_le), (''>'', py_gt), (''<'', py_lt)]"

fun check_condition :: "condition \<Rightarrow> facts \<Rightarrow> error + bool" where
  "check_condition (key, operator, value) facts =
     (case map_of facts key of
        None \<Rightarrow> Inr False
      | Some current_value \<Rightarrow>
          (case map_of ops operator of
             None \<Rightarrow> Inr False
           | Some fn \<Rightarrow> fn current_value value))"

text \<open>\<open>all(check_condition(cond, facts) for cond in rule.conditions)\<close>: the generator is
  consumed up to the first false condition; an exception raised on the way propagates.\<close>

fun all_conditions :: "condition list \<Rightarrow> facts \<Rightarrow> error + bool" where
  "all_conditions [] facts = Inr True"
| "all_conditions (cond # rest) facts =
     (case check_condition cond facts of
        Inl e \<Rightarrow> Inl e
      | Inr ok \<Rightarrow> if ok then all_conditions rest facts else Inr False)"

section \<open>HeartDiseaseEngine\<close>

text \<open>\<open>sorted(rules, key=lambda r: r.priority, reverse=True)\<close>: a stable sort, largest
  priority first; with \<open>reverse=True\<close> equal keys still keep their input order.\<close>

definition HeartDiseaseEngine_init :: "InferenceRule list \<Rightarrow> InferenceRule list" where
  "HeartDiseaseEngine_init rules = sort_key (\<lambda>r. - priority r) rules"

text \<open>One execution of the \<open>for rule in self.rules\<close> loop; the state is the working
  fact store, \<open>triggered_rules\<close> and \<open>new_fact_added\<close>.\<close>

fun run_pass ::
  "InferenceRule list \<Rightarrow> facts \<Rightarrow> string list \<Rightarrow> bool \<Rightarrow> error + (facts \<times> string list \<times> bool)"
where
  "run_pass [] facts triggered_rules new_fact_added =
     Inr (facts, triggered_rules, new_fact_added)"
| "run_pass (rule # rest) facts triggered_rules new_fact_added =
     (if identifier rule \<in> set triggered_rules
      then run_pass rest facts triggered_rules new_fact_added
      else
        (case all_conditions (conditions rule) facts of
           Inl e \<Rightarrow> Inl e
         | Inr ok \<Rightarrow>
             if ok then
               (case conclusion rule of (fact_key, fact_value) \<Rightarrow>
                  if map_of facts fact_key \<noteq> Some fact_value
                  then run_pass rest (AList.update fact_key fact_value facts)
                         (triggered_rules @ [identifier rule]) True
                  else run_pass rest facts triggered_rules new_fact_added)
             else run_pass rest facts triggered_rules new_fact_added))"

text \<open>The rule identifiers that have not fired yet bound the remaining work of the
  \<open>while\<close> loop.\<close>

definition pending :: "InferenceRule list \<Rightarrow> string list \<Rightarrow> nat" where
  "pending rules triggered_rules =
     length (filter (\<lambda>i. i \<notin> set triggered_rules) (remdups (map identifier rules)))"

lemma run_pass_extends:
  "run_pass rules facts tr new = Inr (facts', tr', new') \<Longrightarrow>
     \<exists>added. tr' = tr @ added \<and> distinct added
       \<and> set added \<subseteq> identifier ` set rules - set tr
       \<and> new' = (new \<or> added \<noteq> [])"
proof (induction rules arbitrary: facts tr new)
  case Nil
  then show ?case by simp
next
  case (Cons rule rest)
  show ?case
  proof (cases "identifier rule \<in> set tr")
    case True
    with Cons.prems have "run_pass rest facts tr new = Inr (facts', tr', new')" by simp
    from Cons.IH [OF this] show ?thesis by auto
  next
    case unfired: False
    show ?thesis
    proof (cases "all_conditions (conditions rule) facts")
      case (Inl e)
      with unfired Cons.prems show ?thesis by simp
    next
      case (Inr ok)
      obtain k v where concl: "conclusion rule = (k, v)" by (cases "conclusion rule")
      show ?thesis
      proof (cases "ok \<and> map_of facts k \<noteq> Some v")
        case True
        with unfired Inr concl Cons.prems
        have "run_pass rest (AList.update k v facts) (tr @ [identifier rule]) True
                = Inr (facts', tr', new')"
          by simp
        from Cons.IH [OF this] obtain added where
          a: "tr' = (tr @ [identifier rule]) @ added" "distinct added"
             "set added \<subseteq> identifier ` set rest - set (tr @ [identifier rule])" "new'"
          by auto
        let ?added = "identifier rule # added"
        from a unfired have "tr' = tr @ ?added \<and> distinct ?added
            \<and> set ?added \<subseteq> identifier ` set (rule # rest) - set tr
            \<and> new' = (new \<or> ?added \<noteq> [])"
          by auto
        then show ?thesis by blast
      next
        case False
        with unfired Inr concl Cons.prems
        have "run_pass rest facts tr new = Inr (facts', tr', new')"
          by (auto split: if_splits)
        from Cons.IH [OF this] show ?thesis by auto
      qed
    qed
  qed
qed

lemma pending_append:
  assumes "added \<noteq> []" "set added \<subseteq> identifier ` set rules - set tr"
  shows "pending rules (tr @ added) < pending rules tr"
proof -
  from assms obtain x where x: "x \<in> set added" by (cases added) auto
  with assms have xin: "x \<in> set (remdups (map identifier rules))" and xtr: "x \<notin> set tr"
    by auto
  let ?left = "filter (\<lambda>i. i \<notin> set tr) (remdups (map identifier rules))"
  have "filter (\<lambda>i. i \<notin> set (tr @ added)) (remdups (map identifier rules))
          = filter (\<lambda>i. i \<notin> set added) ?left"
    by (simp add: conj_commute)
  moreover have "length (filter (\<lambda>i. i \<notin> set added) ?left) < length ?left"
    by (rule length_filter_less [of x]) (use x xin xtr in auto)
  ultimately have "length (filter (\<lambda>i. i \<notin> set (tr @ added)) (remdups (map identifier rules)))
          < length ?left"
    by simp
  then show ?thesis by (simp add: pending_def)
qed

lemma pending_le: "pending rules tr \<le> length rules"
proof -
  have "pending rules tr \<le> length (remdups (map identifier rules))"
    unfolding pending_def by (rule length_filter_le)
  also have "\<dots> \<le> length (map identifier rules)" by (rule length_remdups_leq)
  finally show ?thesis by simp
qed

text \<open>The \<open>while new_fact_added\<close> loop. Beside the value that the source returns, the
  function counts the passes it makes (the first component), which the source does
  not store: it is there for the bound on the number of passes.\<close>

function run_loop ::
  "InferenceRule list \<Rightarrow> facts \<Rightarrow> string list \<Rightarrow> bool \<Rightarrow> nat \<times> (error + (facts \<times> string list))"
where
  "run_loop rules facts triggered_rules new_fact_added =
     (if new_fact_added then
        (case run_pass rules facts triggered_rules False of
           Inl e \<Rightarrow> (1, Inl e)
         | Inr (facts', triggered_rules', new_fact_added') \<Rightarrow>
             (case run_loop rules facts' triggered_rules' new_fact_added' of
                (passes, result) \<Rightarrow> (Suc passes, result)))
      else (0, Inr (facts, triggered_rules)))"
  by pat_completeness auto
termination
proof (relation "measure (\<lambda>(rules, facts, tr, new). 2 * pending rules tr + (if new then 1 else 0))")
  show "wf (measure (\<lambda>(rules, facts, tr, new). 2 * pending rules tr + (if new then 1 else 0)))"
    by simp
next
  fix rules :: "InferenceRule list" and facts tr new res facts' rest tr' new'
  assume new and pass: "run_pass rules facts tr False = Inr res"
    and "(facts', rest) = res" and "(tr', new') = rest"
  then have "run_pass rules facts tr False = Inr (facts', tr', new')" by simp
  from run_pass_extends [OF this] obtain added where
    a: "tr' = tr @ added" "set added \<subseteq> identifier ` set rules - set tr" "new' = (added \<noteq> [])"
    by auto
  show "((rules, facts', tr', new'), (rules, facts, tr, new))
          \<in> measure (\<lambda>(rules, facts, tr, new). 2 * pending rules tr + (if new then 1 else 0))"
  proof (cases new')
    case True
    with a pending_append [of added rules tr] show ?thesis by simp
  next
    case False
    with a \<open>new\<close> show ?thesis by simp
  qed
qed

declare run_loop.simps [simp del]

text \<open>\<open>HeartDiseaseEngine.run\<close>, on the rule list held by the engine: the working store
  starts as \<open>dict(initial_facts)\<close>, a list with the same entries in the same order.\<close>

definition run :: "InferenceRule list \<Rightarrow> facts \<Rightarrow> error + (facts \<times> string list)" where
  "run rules initial_facts = snd (run_loop rules initial_facts [] True)"

definition run_passes :: "InferenceRule list \<Rightarrow> facts \<Rightarrow> nat" where
  "run_passes rules initial_facts = fst (run_loop rules initial_facts [] True)"

text \<open>A rule fires when the loop body reaches its three statements: it has not fired
  before, all its conditions hold, and its conclusion is not in the store already.\<close>

definition fires :: "InferenceRule \<Rightarrow> facts \<Rightarrow> string list \<Rightarrow> bool" where
  "fires rule facts triggered_rules \<longleftrightarrow>
     identifier rule \<notin> set triggered_rules
     \<and> all_conditions (conditions rule) facts = Inr True
     \<and> map_of facts (fst (conclusion rule)) \<noteq> Some (snd (conclusion rule))"

definition fire :: "InferenceRule \<Rightarrow> facts \<Rightarrow> facts" where
  "fire rule facts = AList.update (fst (conclusion rule)) (snd (conclusion rule)) facts"

section \<open>The engine on a store of objects\<close>

text \<open>
  Python passes dictionaries and lists by reference. The store is the list of the
  dictionaries that exist, a reference is an index into it, and allocation appends.
  \<open>run\<close> receives the reference \<open>initial_facts\<close>; \<open>dict(initial_facts)\<close> allocates a new
  dictionary, and the loop reads and writes through the local variable \<open>facts\<close> that
  holds the new reference.
\<close>

type_synonym store = "facts list"

fun run_pass_st ::
  "InferenceRule list \<Rightarrow> store \<Rightarrow> nat \<Rightarrow> string list \<Rightarrow> bool
     \<Rightarrow> store \<times> (error + (string list \<times> bool))"
where
  "run_pass_st [] st facts triggered_rules new_fact_added =
     (st, Inr (triggered_rules, new_fact_added))"
| "run_pass_st (rule # rest) st facts triggered_rules new_fact_added =
     (if identifier rule \<in> set triggered_rules
      then run_pass_st rest st facts triggered_rules new_fact_added
      else
        (case all_conditions (conditions rule) (st ! facts) of
           Inl e \<Rightarrow> (st, Inl e)
         | Inr ok \<Rightarrow>
             if ok then
               (case conclusion rule of (fact_key, fact_value) \<Rightarrow>
                  if map_of (st ! facts) fact_key \<noteq> Some fact_value
                  then run_pass_st rest
                         (st[facts := AList.update fact_key fact_value (st ! facts)]) facts
                         (triggered_rules @ [identifier rule]) True
                  else run_pass_st rest st facts triggered_rules new_fact_added)
             else run_pass_st rest st facts triggered_rules new_fact_added))"

lemma run_pass_st_extends:
  "run_pass_st rules st p tr new = (st', Inr (tr', new')) \<Longrightarrow>
     \<exists>added. tr' = tr @ added \<and> set added \<subseteq> identifier ` set rules - set tr
       \<and> new' = (new \<or> added \<noteq> [])"
proof (induction rules arbitrary: st tr new)
  case Nil
  then show ?case by simp
next
  case (Cons rule rest)
  obtain k v where concl: "conclusion rule = (k, v)" by (cases "conclusion rule")
  show ?case
  proof (cases "identifier rule \<notin> set tr \<and> all_conditions (conditions rule) (st ! p) = Inr True
                  \<and> map_of (st ! p) k \<noteq> Some v")
    case True
    with concl Cons.prems
    have "run_pass_st rest (st[p := AList.update k v (st ! p)]) p (tr @ [identifier rule]) True
            = (st', Inr (tr', new'))"
      by simp
    from Cons.IH [OF this] obtain added where
      a: "tr' = (tr @ [identifier rule]) @ added"
         "set added \<subseteq> identifier ` set rest - set (tr @ [identifier rule])" "new'"
      by auto
    let ?added = "identifier rule # added"
    from a True have "tr' = tr @ ?added
        \<and> set ?added \<subseteq> identifier ` set (rule # rest) - set tr
        \<and> new' = (new \<or> ?added \<noteq> [])"
      by auto
    then show ?thesis by blast
  next
    case False
    with concl Cons.prems
    have "run_pass_st rest st p tr new = (st', Inr (tr', new'))"
      by (auto split: if_splits sum.splits)
    from Cons.IH [OF this] show ?thesis by auto
  qed
qed

function run_loop_st ::
  "InferenceRule list \<Rightarrow> store \<Rightarrow> nat \<Rightarrow> string list \<Rightarrow> bool \<Rightarrow> store \<times> (error + string list)"
where
  "run_loop_st rules st facts triggered_rules new_fact_added =
     (if new_fact_added then
        (case run_pass_st rules st facts triggered_rules False of
           (st', Inl e) \<Rightarrow> (st', Inl e)
         | (st', Inr (triggered_rules', new_fact_added')) \<Rightarrow>
             run_loop_st rules st' facts triggered_rules' new_fact_added')
      else (st, Inr triggered_rules))"
  by pat_completeness auto
termination
proof (relation
    "measure (\<lambda>(rules, st, p, tr, new). 2 * pending rules tr + (if new then 1 else 0))")
  show "wf (measure
      (\<lambda>(rules, st, p, tr, new). 2 * pending rules tr + (if new then 1 else 0 :: nat)))"
    by simp
next
  fix rules :: "InferenceRule list" and st :: store and p :: nat and tr new st' r ok tr' new'
  assume new and "(st', r) = run_pass_st rules st p tr False"
    and "r = Inr ok" and "(tr', new') = ok"
  then have "run_pass_st rules st p tr False = (st', Inr (tr', new'))" by simp
  from run_pass_st_extends [OF this] obtain added where
    a: "tr' = tr @ added" "set added \<subseteq> identifier ` set rules - set tr" "new' = (added \<noteq> [])"
    by auto
  show "((rules, st', p, tr', new'), (rules, st, p, tr, new))
          \<in> measure (\<lambda>(rules, st, p, tr, new). 2 * pending rules tr + (if new then 1 else 0))"
  proof (cases new')
    case True
    with a pending_append [of added rules tr] show ?thesis by simp
  next
    case False
    with a \<open>new\<close> show ?thesis by simp
  qed
qed

declare run_loop_st.simps [simp del]

text \<open>\<open>run\<close> with its references: the result is the new store and either the exception
  or the returned pair (the reference held by \<open>facts\<close>, and \<open>triggered_rules\<close>).\<close>

definition run_st ::
  "InferenceRule list \<Rightarrow> store \<Rightarrow> nat \<Rightarrow> store \<times> (error + (nat \<times> string list))"
where
  "run_st rules st initial_facts =
     (let facts = length st;
          st1 = st @ [st ! initial_facts]
      in case run_loop_st rules st1 facts [] True of
           (st', Inl e) \<Rightarrow> (st', Inl e)
         | (st', Inr triggered_rules) \<Rightarrow> (st', Inr (facts, triggered_rules)))"

text \<open>What the caller sees of a result: the returned dictionary read through its
  reference, and the firing order.\<close>

definition returned :: "store \<times> (error + (nat \<times> string list)) \<Rightarrow> error + (facts \<times> string list)" where
  "returned out =
     (case out of
        (st', Inl e) \<Rightarrow> Inl e
      | (st', Inr (facts, triggered_rules)) \<Rightarrow> Inr (st' ! facts, triggered_rules))"

text \<open>The constructor on a store of rule lists: \<open>sorted\<close> allocates the list it returns,
  whose reference goes to \<open>self.rules\<close>.\<close>

definition HeartDiseaseEngine_init_st ::
  "InferenceRule list list \<Rightarrow> nat \<Rightarrow> InferenceRule list list \<times> nat"
where
  "HeartDiseaseEngine_init_st st rules = (st @ [HeartDiseaseEngine_init (st ! rules)], length st)"

section \<open>build\_graph\_dot\<close>















section \<open>Notions used to state the properties\<close>

text \<open>The fact keys a rule mentions, in its conditions or its conclusion.\<close>

definition rule_keys :: "InferenceRule \<Rightarrow> string set" where
  "rule_keys r = fst ` set (conditions r) \<union> {fst (conclusion r)}"

text \<open>Two values that Python can order: both integers or both strings.\<close>

fun comparable :: "val \<Rightarrow> val \<Rightarrow> bool" where
  "comparable (IntV a) (IntV b) = True"
| "comparable (StrV a) (StrV b) = True"
| "comparable _ _ = False"

text \<open>\<open>precedes a b xs\<close>: \<open>b\<close> occurs in \<open>xs\<close> after the first occurrence of \<open>a\<close>.\<close>

fun precedes :: "'a \<Rightarrow> 'a \<Rightarrow> 'a list \<Rightarrow> bool" where
  "precedes a b [] = False"
| "precedes a b (x # xs) = (if x = a then b \<in> set xs else precedes a b xs)"

text \<open>The facts updated, in firing order, with the conclusion of the rule that carries
  each fired identifier (no update for an identifier that no rule carries).\<close>

definition apply_fired :: "InferenceRule list \<Rightarrow> string list \<Rightarrow> facts \<Rightarrow> facts" where
  "apply_fired rules fired_order initial_facts =
     fold (\<lambda>i facts. case find (\<lambda>r. identifier r = i) rules of
                        None \<Rightarrow> facts
                      | Some r \<Rightarrow> fire r facts)
          fired_order initial_facts"











section \<open>Example rule sets\<close>

text \<open>Scenario A of the specification: \<open>R1: if a == 1 then b = 1\<close> (priority 2) and
  \<open>R2: if b == 1 then c = 1\<close> (priority 1).\<close>

definition R1 :: InferenceRule where
  "R1 = \<lparr>identifier = ''R1'', conditions = [(''a'', ''=='', IntV 1)],
          conclusion = (''b'', IntV 1), priority = 2\<rparr>"

definition R2 :: InferenceRule where
  "R2 = \<lparr>identifier = ''R2'', conditions = [(''b'', ''=='', IntV 1)],
          conclusion = (''c'', IntV 1), priority = 1\<rparr>"

text \<open>Two rules that write the same key: \<open>K2: if a == 1 then k = 2\<close> (priority 2) and
  \<open>K1: if a == 1 then k = 1\<close> (priority 1).\<close>

definition K2 :: InferenceRule where
  "K2 = \<lparr>identifier = ''K2'', conditions = [(''a'', ''=='', IntV 1)],
          conclusion = (''k'', IntV 2), priority = 2\<rparr>"

definition K1 :: InferenceRule where
  "K1 = \<lparr>identifier = ''K1'', conditions = [(''a'', ''=='', IntV 1)],
          conclusion = (''k'', IntV 1), priority = 1\<rparr>"

text \<open>Four rules with priorities 3, 2, 1, 0: \<open>P3: if a == 1 then x = 0\<close>,
  \<open>P2: if x == 1 then y = 1\<close>, \<open>P1: if z == 1 then w = 1\<close>, \<open>P0: if w == 1 then x = 1\<close>.
  \<open>P2\<close> and \<open>P1\<close> share no key.\<close>

definition P3 :: InferenceRule where
  "P3 = \<lparr>identifier = ''P3'', conditions = [(''a'', ''=='', IntV 1)],
          conclusion = (''x'', IntV 0), priority = 3\<rparr>"

definition P2 :: InferenceRule where
  "P2 = \<lparr>identifier = ''P2'', conditions = [(''x'', ''=='', IntV 1)],
          conclusion = (''y'', IntV 1), priority = 2\<rparr>"

definition P1 :: InferenceRule where
  "P1 = \<lparr>identifier = ''P1'', conditions = [(''z'', ''=='', IntV 1)],
          conclusion = (''w'', IntV 1), priority = 1\<rparr>"

definition P0 :: InferenceRule where
  "P0 = \<lparr>identifier = ''P0'', conditions = [(''w'', ''=='', IntV 1)],
          conclusion = (''x'', IntV 1), priority = 0\<rparr>"


section \<open>The three outcomes of a rule in a pass\<close>

text \<open>A rule that is reached in a pass fires, or raises while its conditions are
  evaluated, or is passed over.\<close>

lemma rule_cases [case_names fire raise skip]:
  obtains "fires rule facts tr"
  | e where "identifier rule \<notin> set tr" "all_conditions (conditions rule) facts = Inl e"
  | "\<not> fires rule facts tr"
      "identifier rule \<in> set tr \<or> (\<exists>b. all_conditions (conditions rule) facts = Inr b)"
  by (cases "all_conditions (conditions rule) facts") (auto simp: fires_def)

lemma run_pass_fire:
  "fires rule facts tr \<Longrightarrow>
     run_pass (rule # rest) facts tr new
       = run_pass rest (fire rule facts) (tr @ [identifier rule]) True"
  by (simp add: fires_def fire_def split_beta)

lemma run_pass_raise:
  "identifier rule \<notin> set tr \<Longrightarrow> all_conditions (conditions rule) facts = Inl e \<Longrightarrow>
     run_pass (rule # rest) facts tr new = Inl e"
  by simp

lemma run_pass_skip:
  "\<not> fires rule facts tr \<Longrightarrow>
   identifier rule \<in> set tr \<or> (\<exists>b. all_conditions (conditions rule) facts = Inr b) \<Longrightarrow>
     run_pass (rule # rest) facts tr new = run_pass rest facts tr new"
  by (auto simp: fires_def split_beta)

lemma run_pass_st_fire:
  "fires rule (st ! p) tr \<Longrightarrow>
     run_pass_st (rule # rest) st p tr new
       = run_pass_st rest (st[p := fire rule (st ! p)]) p (tr @ [identifier rule]) True"
  by (simp add: fires_def fire_def split_beta)

lemma run_pass_st_raise:
  "identifier rule \<notin> set tr \<Longrightarrow> all_conditions (conditions rule) (st ! p) = Inl e \<Longrightarrow>
     run_pass_st (rule # rest) st p tr new = (st, Inl e)"
  by simp

lemma run_pass_st_skip:
  "\<not> fires rule (st ! p) tr \<Longrightarrow>
   identifier rule \<in> set tr \<or> (\<exists>b. all_conditions (conditions rule) (st ! p) = Inr b) \<Longrightarrow>
     run_pass_st (rule # rest) st p tr new = run_pass_st rest st p tr new"
  by (auto simp: fires_def split_beta)

declare run_pass.simps(2) [simp del] run_pass_st.simps(2) [simp del]

section \<open>Invariants of the firing loop\<close>

lemma run_pass_invariant:
  assumes "run_pass rules facts tr new = Inr (facts', tr', new')"
    and "P facts tr"
    and step: "\<And>r f t. r \<in> set rules \<Longrightarrow> P f t \<Longrightarrow> fires r f t \<Longrightarrow> P (fire r f) (t @ [identifier r])"
  shows "P facts' tr'"
  using assms
proof (induction rules arbitrary: facts tr new)
  case Nil
  then show ?case by simp
next
  case (Cons rule rest)
  have step': "\<And>r f t. r \<in> set rest \<Longrightarrow> P f t \<Longrightarrow> fires r f t \<Longrightarrow> P (fire r f) (t @ [identifier r])"
    using Cons.prems(3) by simp
  show ?case
  proof (cases rule facts tr rule: rule_cases)
    case fire
    then have "run_pass rest (fire rule facts) (tr @ [identifier rule]) True = Inr (facts', tr', new')"
      using Cons.prems(1) by (simp add: run_pass_fire)
    moreover have "P (fire rule facts) (tr @ [identifier rule])"
      using Cons.prems(2,3) fire by simp
    ultimately show ?thesis using Cons.IH step' by blast
  next
    case (raise e)
    with Cons.prems(1) show ?thesis by (simp add: run_pass_raise)
  next
    case skip
    then have "run_pass rest facts tr new = Inr (facts', tr', new')"
      using Cons.prems(1) by (simp add: run_pass_skip)
    then show ?thesis using Cons.IH Cons.prems(2) step' by blast
  qed
qed

lemma run_loop_unfold:
  assumes "run_pass rules facts tr False = Inr (f1, t1, n1)"
  shows "run_loop rules facts tr True
           = (Suc (fst (run_loop rules f1 t1 n1)), snd (run_loop rules f1 t1 n1))"
  using assms by (simp add: run_loop.simps [of rules facts] split_beta)

lemma run_loop_invariant:
  assumes "snd (run_loop rules facts tr new) = Inr (facts', tr')"
    and "P facts tr"
    and step: "\<And>r f t. r \<in> set rules \<Longrightarrow> P f t \<Longrightarrow> fires r f t \<Longrightarrow> P (fire r f) (t @ [identifier r])"
  shows "P facts' tr'"
  using assms
proof (induction rules facts tr new rule: run_loop.induct)
  case (1 rules facts tr new)
  show ?case
  proof (cases new)
    case False
    with "1.prems" show ?thesis by (simp add: run_loop.simps)
  next
    case True
    show ?thesis
    proof (cases "run_pass rules facts tr False")
      case (Inl e)
      with True "1.prems" show ?thesis by (simp add: run_loop.simps)
    next
      case (Inr res)
      obtain f1 t1 n1 where res: "res = (f1, t1, n1)" by (cases res)
      have pass: "run_pass rules facts tr False = Inr (f1, t1, n1)"
        using Inr res by simp
      have "P f1 t1"
        by (rule run_pass_invariant [where P = P, OF pass "1.prems"(2)], erule (2) "1.prems"(3))
      moreover have "snd (run_loop rules f1 t1 n1) = Inr (facts', tr')"
        using "1.prems"(1) True by (simp add: run_loop_unfold [OF pass])
      ultimately show ?thesis
        using "1.IH" [OF True Inr, of f1 "(t1, n1)" t1 n1] res "1.prems"(3) by simp
    qed
  qed
qed

lemma run_loop_passes:
  "fst (run_loop rules facts tr new) \<le> pending rules tr + (if new then 1 else 0)"
proof (induction rules facts tr new rule: run_loop.induct)
  case (1 rules facts tr new)
  show ?case
  proof (cases new)
    case False
    then show ?thesis by (simp add: run_loop.simps)
  next
    case True
    show ?thesis
    proof (cases "run_pass rules facts tr False")
      case (Inl e)
      with True show ?thesis by (simp add: run_loop.simps)
    next
      case (Inr res)
      obtain f1 t1 n1 where res: "res = (f1, t1, n1)" by (cases res)
      have pass: "run_pass rules facts tr False = Inr (f1, t1, n1)"
        using Inr res by simp
      from run_pass_extends [OF pass] obtain added where
        a: "t1 = tr @ added" "set added \<subseteq> identifier ` set rules - set tr" "n1 = (added \<noteq> [])"
        by auto
      have ih: "fst (run_loop rules f1 t1 n1) \<le> pending rules t1 + (if n1 then 1 else 0)"
        using "1.IH" [OF True Inr, of f1 "(t1, n1)" t1 n1] res by simp
      have "pending rules t1 + (if n1 then 1 else 0) \<le> pending rules tr"
        using a pending_append [of added rules tr] by (cases n1) auto
      with ih have "Suc (fst (run_loop rules f1 t1 n1)) \<le> pending rules tr + 1" by simp
      then show ?thesis using True by (simp add: run_loop_unfold [OF pass])
    qed
  qed
qed

section \<open>The store-level engine and the engine on values\<close>

lemma run_pass_st_frame:
  "length (fst (run_pass_st rules st p tr new)) = length st
   \<and> (\<forall>a. a \<noteq> p \<longrightarrow> fst (run_pass_st rules st p tr new) ! a = st ! a)"
proof (induction rules arbitrary: st tr new)
  case Nil
  show ?case by simp
next
  case (Cons rule rest)
  show ?case
  proof (cases rule "st ! p" tr rule: rule_cases)
    case fire
    from Cons.IH [of "st[p := fire rule (st ! p)]" "tr @ [identifier rule]" True]
    show ?thesis by (simp add: run_pass_st_fire [OF fire])
  next
    case (raise e)
    then show ?thesis by (simp add: run_pass_st_raise)
  next
    case skip
    from Cons.IH [of st tr new] show ?thesis by (simp add: run_pass_st_skip [OF skip])
  qed
qed

lemma run_pass_st_result:
  assumes "p < length st"
  shows "snd (run_pass_st rules st p tr new) = map_sum id snd (run_pass rules (st ! p) tr new)
   \<and> (\<forall>f tr' new'. run_pass rules (st ! p) tr new = Inr (f, tr', new')
          \<longrightarrow> fst (run_pass_st rules st p tr new) ! p = f)"
  using assms
proof (induction rules arbitrary: st tr new)
  case Nil
  show ?case by simp
next
  case (Cons rule rest)
  show ?case
  proof (cases rule "st ! p" tr rule: rule_cases)
    case fire
    let ?st = "st[p := fire rule (st ! p)]"
    have cell: "?st ! p = fire rule (st ! p)" and len: "p < length ?st"
      using Cons.prems by simp_all
    from Cons.IH [OF len, of "tr @ [identifier rule]" True]
    show ?thesis
      by (simp add: run_pass_st_fire [OF fire] run_pass_fire [OF fire] cell)
  next
    case (raise e)
    then show ?thesis by (simp add: run_pass_st_raise run_pass_raise)
  next
    case skip
    from Cons.IH [OF Cons.prems, of tr new]
    show ?thesis by (simp add: run_pass_st_skip [OF skip] run_pass_skip [OF skip])
  qed
qed

lemma run_loop_st_frame:
  "length (fst (run_loop_st rules st p tr new)) = length st
   \<and> (\<forall>a. a \<noteq> p \<longrightarrow> fst (run_loop_st rules st p tr new) ! a = st ! a)"
proof (induction rules st p tr new rule: run_loop_st.induct)
  case (1 rules st p tr new)
  show ?case
  proof (cases new)
    case False
    then show ?thesis by (simp add: run_loop_st.simps)
  next
    case True
    obtain st1 r where pass: "run_pass_st rules st p tr False = (st1, r)"
      by (cases "run_pass_st rules st p tr False")
    from run_pass_st_frame [of rules st p tr False] pass
    have fr: "length st1 = length st" "\<forall>a. a \<noteq> p \<longrightarrow> st1 ! a = st ! a" by simp_all
    show ?thesis
    proof (cases r)
      case (Inl e)
      with True pass fr show ?thesis by (simp add: run_loop_st.simps [of rules st])
    next
      case (Inr ok)
      obtain t1 n1 where ok: "ok = (t1, n1)" by (cases ok)
      have "run_loop_st rules st p tr new = run_loop_st rules st1 p t1 n1"
        using True pass Inr ok by (simp add: run_loop_st.simps [of rules st])
      moreover have "length (fst (run_loop_st rules st1 p t1 n1)) = length st1
          \<and> (\<forall>a. a \<noteq> p \<longrightarrow> fst (run_loop_st rules st1 p t1 n1) ! a = st1 ! a)"
        using "1.IH" [OF True pass [symmetric] Inr ok [symmetric]] .
      ultimately show ?thesis using fr by simp
    qed
  qed
qed

lemma run_loop_st_result:
  assumes "p < length st"
  shows "snd (run_loop_st rules st p tr new)
           = map_sum id snd (snd (run_loop rules (st ! p) tr new))
   \<and> (\<forall>f tr'. snd (run_loop rules (st ! p) tr new) = Inr (f, tr')
          \<longrightarrow> fst (run_loop_st rules st p tr new) ! p = f)"
  using assms
proof (induction rules st p tr new rule: run_loop_st.induct)
  case (1 rules st p tr new)
  show ?case
  proof (cases new)
    case False
    then show ?thesis by (simp add: run_loop_st.simps run_loop.simps)
  next
    case True
    obtain st1 r where pass: "run_pass_st rules st p tr False = (st1, r)"
      by (cases "run_pass_st rules st p tr False")
    from run_pass_st_frame [of rules st p tr False] pass "1.prems"
    have len: "p < length st1" by simp
    from run_pass_st_result [OF "1.prems", of rules tr False] pass
    have res: "r = map_sum id snd (run_pass rules (st ! p) tr False)"
      and cell: "\<forall>f tr' new'. run_pass rules (st ! p) tr False = Inr (f, tr', new') \<longrightarrow> st1 ! p = f"
      by simp_all
    show ?thesis
    proof (cases "run_pass rules (st ! p) tr False")
      case (Inl e)
      with True pass res show ?thesis
        by (simp add: run_loop_st.simps [of rules st] run_loop.simps [of rules "st ! p"])
    next
      case (Inr out)
      obtain f1 t1 n1 where out: "out = (f1, t1, n1)" by (cases out)
      from Inr out res cell have r: "r = Inr (t1, n1)" and f1: "st1 ! p = f1" by simp_all
      have "run_loop_st rules st p tr new = run_loop_st rules st1 p t1 n1"
        using True pass r by (simp add: run_loop_st.simps [of rules st])
      moreover have "snd (run_loop rules (st ! p) tr new) = snd (run_loop rules (st1 ! p) t1 n1)"
        using True Inr out f1 by (simp add: run_loop_unfold)
      moreover note "1.IH" [OF True pass [symmetric] r refl len]
      ultimately show ?thesis by simp
    qed
  qed
qed

lemma run_st_returned: "returned (run_st rules st a) = run rules (st ! a)"
proof -
  let ?st1 = "st @ [st ! a]"
  have len: "length st < length ?st1" and cell: "?st1 ! length st = st ! a" by simp_all
  obtain st' r where loop: "run_loop_st rules ?st1 (length st) [] True = (st', r)"
    by (cases "run_loop_st rules ?st1 (length st) [] True")
  from run_loop_st_result [OF len, of rules "[]" True] loop cell
  have r: "r = map_sum id snd (snd (run_loop rules (st ! a) [] True))"
    and c: "\<forall>f tr'. snd (run_loop rules (st ! a) [] True) = Inr (f, tr') \<longrightarrow> st' ! length st = f"
    by simp_all
  show ?thesis
  proof (cases "snd (run_loop rules (st ! a) [] True)")
    case (Inl e)
    with r loop show ?thesis by (simp add: returned_def run_st_def run_def)
  next
    case (Inr out)
    obtain f t where out: "out = (f, t)" by (cases out)
    with Inr r c loop show ?thesis by (simp add: returned_def run_st_def run_def)
  qed
qed

lemma run_st_frame:
  "take (length st) (fst (run_st rules st a)) = st
   \<and> length (fst (run_st rules st a)) = Suc (length st)"
proof -
  let ?st1 = "st @ [st ! a]"
  obtain st' r where loop: "run_loop_st rules ?st1 (length st) [] True = (st', r)"
    by (cases "run_loop_st rules ?st1 (length st) [] True")
  from run_loop_st_frame [of rules ?st1 "length st" "[]" True] loop
  have len: "length st' = Suc (length st)"
    and same: "\<forall>b. b \<noteq> length st \<longrightarrow> st' ! b = ?st1 ! b"
    by simp_all
  have fst: "fst (run_st rules st a) = st'"
    using loop by (cases r) (simp_all add: run_st_def split_beta)
  have "take (length st) st' = st"
  proof (rule nth_equalityI)
    show "length (take (length st) st') = length st" using len by simp
  next
    fix i assume "i < length (take (length st) st')"
    then have i: "i < length st" by simp
    with same have "st' ! i = ?st1 ! i" by simp
    with i show "take (length st) st' ! i = st ! i" by (simp add: nth_append)
  qed
  with fst len show ?thesis by simp
qed

lemma run_st_reference:
  "run_st rules st a = (st', Inr (p, fired)) \<Longrightarrow> p = length st"
  by (auto simp: run_st_def Let_def split: prod.splits sum.splits)

section \<open>Evaluation of the examples\<close>

lemma run_scenario_A:
  "run [R1, R2] [(''a'', IntV 1)]
     = Inr ([(''a'', IntV 1), (''b'', IntV 1), (''c'', IntV 1)], [''R1'', ''R2''])"
  by code_simp

lemma run_st_scenario_A:
  "run_st [R1, R2] [[(''a'', IntV 1)]] 0
     = ([[(''a'', IntV 1)], [(''a'', IntV 1), (''b'', IntV 1), (''c'', IntV 1)]],
        Inr (1, [''R1'', ''R2'']))"
  by code_simp

lemma run_st_scenario_A_again:
  "run_st [R1, R2] [[(''a'', IntV 1)], [(''a'', IntV 1), (''b'', IntV 1), (''c'', IntV 1)]] 0
     = ([[(''a'', IntV 1)], [(''a'', IntV 1), (''b'', IntV 1), (''c'', IntV 1)],
         [(''a'', IntV 1), (''b'', IntV 1), (''c'', IntV 1)]],
        Inr (2, [''R1'', ''R2'']))"
  by code_simp

lemma run_scenario_B:
  "run [R1, R2] [(''b'', IntV 1)] = Inr ([(''b'', IntV 1), (''c'', IntV 1)], [''R2''])"
  by code_simp

lemma run_two_writers:
  "run (HeartDiseaseEngine_init [K1, K2]) [(''a'', IntV 1), (''k'', IntV 1)]
     = Inr ([(''a'', IntV 1), (''k'', IntV 1)], [''K2'', ''K1''])"
  by code_simp

section \<open>Properties of check\_condition\<close>

lemma ops_lookup:
  "map_of ops ''=='' = Some py_eq" "map_of ops ''!='' = Some py_ne"
  "map_of ops ''>='' = Some py_ge" "map_of ops ''<='' = Some py_le"
  "map_of ops ''>'' = Some py_gt" "map_of ops ''<'' = Some py_lt"
  by (simp_all add: ops_def)

lemma ops_unsupported:
  "operator \<notin> {''=='', ''!='', ''>='', ''<='', ''>'', ''<''} \<Longrightarrow> map_of ops operator = None"
  by (simp add: ops_def)

lemma ordering_raises:
  "(py_ge a b = Inl TypeError) = (\<not> comparable a b)"
  "(py_le a b = Inl TypeError) = (\<not> comparable a b)"
  "(py_gt a b = Inl TypeError) = (\<not> comparable a b)"
  "(py_lt a b = Inl TypeError) = (\<not> comparable a b)"
  by (cases a; cases b; simp)+

lemma incomparable_raises_iff:
  "check_condition (key, operator, value) facts = Inl TypeError
     \<longleftrightarrow> (\<exists>cur. map_of facts key = Some cur \<and> operator \<in> {''>='', ''<='', ''>'', ''<''}
            \<and> \<not> comparable cur value)"
proof (cases "map_of facts key")
  case None
  then show ?thesis by simp
next
  case (Some cur)
  consider (eq) "operator = ''==''" | (ne) "operator = ''!=''" | (ge) "operator = ''>=''"
    | (le) "operator = ''<=''" | (gt) "operator = ''>''" | (lt) "operator = ''<''"
    | (other) "operator \<notin> {''=='', ''!='', ''>='', ''<='', ''>'', ''<''}"
    by blast
  then show ?thesis
  proof cases
    case eq
    with Some show ?thesis by (simp add: ops_lookup py_eq_def)
  next
    case ne
    with Some show ?thesis by (simp add: ops_lookup py_ne_def)
  next
    case ge
    with Some show ?thesis by (simp add: ops_lookup ordering_raises)
  next
    case le
    with Some show ?thesis by (simp add: ops_lookup ordering_raises)
  next
    case gt
    with Some show ?thesis by (simp add: ops_lookup ordering_raises)
  next
    case lt
    with Some show ?thesis by (simp add: ops_lookup ordering_raises)
  next
    case other
    then have "operator \<notin> {''>='', ''<='', ''>'', ''<''}" by blast
    with Some other show ?thesis by (simp add: ops_unsupported)
  qed
qed

lemma check_condition_returns:
  assumes "operator \<in> {''=='', ''!=''} \<or> (\<forall>cur. map_of facts key = Some cur \<longrightarrow> comparable cur value)"
  shows "\<exists>b. check_condition (key, operator, value) facts = Inr b"
proof -
  have "check_condition (key, operator, value) facts \<noteq> Inl TypeError"
  proof
    assume "check_condition (key, operator, value) facts = Inl TypeError"
    then obtain cur where cur: "map_of facts key = Some cur"
      and op: "operator \<in> {''>='', ''<='', ''>'', ''<''}" and nc: "\<not> comparable cur value"
      unfolding incomparable_raises_iff by (elim exE conjE)
    from op have "operator \<noteq> ''==''" "operator \<noteq> ''!=''" by auto
    with assms cur nc show False by simp
  qed
  then show ?thesis
    by (cases "check_condition (key, operator, value) facts") (auto intro: error.exhaust)
qed

text \<open>
  Claim C5, as the code has it. \<open>check_condition\<close> returns false when the key is
  absent from the fact store and when the operator is none of the six supported ones.
  It returns a boolean whenever the operator is \<open>==\<close> or \<open>!=\<close>, or the stored value and
  the comparison value are both integers or both strings. It raises \<open>TypeError\<close> exactly
  when the key is present, the operator is one of \<open>>=\<close>, \<open><=\<close>, \<open>>\<close>, \<open><\<close>, and one of the
  two values is an integer and the other a string.
\<close>

theorem check_condition_fails_open:
  "(map_of facts key = None \<longrightarrow> check_condition (key, operator, value) facts = Inr False)
   \<and> (operator \<notin> {''=='', ''!='', ''>='', ''<='', ''>'', ''<''}
        \<longrightarrow> check_condition (key, operator, value) facts = Inr False)
   \<and> (operator \<in> {''=='', ''!=''} \<or> (\<forall>cur. map_of facts key = Some cur \<longrightarrow> comparable cur value)
        \<longrightarrow> (\<exists>b. check_condition (key, operator, value) facts = Inr b))
   \<and> (check_condition (key, operator, value) facts = Inl TypeError
        \<longleftrightarrow> (\<exists>cur. map_of facts key = Some cur \<and> operator \<in> {''>='', ''<='', ''>'', ''<''}
               \<and> \<not> comparable cur value))"
proof (intro conjI impI)
  assume "map_of facts key = None"
  then show "check_condition (key, operator, value) facts = Inr False" by simp
next
  assume "operator \<notin> {''=='', ''!='', ''>='', ''<='', ''>'', ''<''}"
  from ops_unsupported [OF this]
  show "check_condition (key, operator, value) facts = Inr False"
    by (simp split: option.splits)
next
  assume "operator \<in> {''=='', ''!=''} \<or> (\<forall>cur. map_of facts key = Some cur \<longrightarrow> comparable cur value)"
  then show "\<exists>b. check_condition (key, operator, value) facts = Inr b"
    by (rule check_condition_returns)
next
  show "check_condition (key, operator, value) facts = Inl TypeError
        \<longleftrightarrow> (\<exists>cur. map_of facts key = Some cur \<and> operator \<in> {''>='', ''<='', ''>'', ''<''}
               \<and> \<not> comparable cur value)"
    by (rule incomparable_raises_iff)
qed

theorem check_condition_fails_open_witness:
  "check_condition (''y'', ''>='', IntV 1) [(''x'', IntV 3)] = Inr False
   \<and> check_condition (''x'', ''=>'', IntV 1) [(''x'', IntV 3)] = Inr False
   \<and> (\<exists>b. check_condition (''x'', ''>='', IntV 1) [(''x'', IntV 3)] = Inr b)
   \<and> check_condition (''x'', ''>='', IntV 1) [(''x'', StrV ''a'')] = Inl TypeError"
proof -
  have h1: "map_of [(''x'', IntV 3)] ''y'' = None" by simp
  have h2: "''=>'' \<notin> {''=='', ''!='', ''>='', ''<='', ''>'', ''<''}" by simp
  have h3: "''>='' \<in> {''=='', ''!=''}
      \<or> (\<forall>cur. map_of [(''x'', IntV 3)] ''x'' = Some cur \<longrightarrow> comparable cur (IntV 1))"
    by simp
  have h4: "\<exists>cur. map_of [(''x'', StrV ''a'')] ''x'' = Some cur
      \<and> ''>='' \<in> {''>='', ''<='', ''>'', ''<''} \<and> \<not> comparable cur (IntV 1)"
    by simp
  note t1 = check_condition_fails_open [of "[(''x'', IntV 3)]" "''y''" "''>=''" "IntV 1"]
  note t2 = check_condition_fails_open [of "[(''x'', IntV 3)]" "''x''" "''=>''" "IntV 1"]
  note t3 = check_condition_fails_open [of "[(''x'', IntV 3)]" "''x''" "''>=''" "IntV 1"]
  note t4 = check_condition_fails_open [of "[(''x'', StrV ''a'')]" "''x''" "''>=''" "IntV 1"]
  have a: "check_condition (''y'', ''>='', IntV 1) [(''x'', IntV 3)] = Inr False"
    by (rule mp [OF conjunct1 [OF t1] h1])
  have b: "check_condition (''x'', ''=>'', IntV 1) [(''x'', IntV 3)] = Inr False"
    by (rule mp [OF conjunct1 [OF conjunct2 [OF t2]] h2])
  have c: "\<exists>b. check_condition (''x'', ''>='', IntV 1) [(''x'', IntV 3)] = Inr b"
    by (rule mp [OF conjunct1 [OF conjunct2 [OF conjunct2 [OF t3]]] h3])
  have d: "check_condition (''x'', ''>='', IntV 1) [(''x'', StrV ''a'')] = Inl TypeError"
    by (rule iffD2 [OF conjunct2 [OF conjunct2 [OF conjunct2 [OF t4]]] h4])
  show ?thesis by (rule conjI [OF a conjI [OF b conjI [OF c d]]])
qed

text \<open>Claim C5 as stated ("never raises") fails: with the fact \<open>x = "a"\<close>, the condition
  \<open>x >= 1\<close> raises.\<close>

theorem check_condition_raises:
  "check_condition (''x'', ''>='', IntV 1) [(''x'', StrV ''a'')] = Inl TypeError"
  by (simp add: ops_def)

section \<open>Properties of the constructor\<close>

text \<open>
  Claim C6. The rule list built by \<open>HeartDiseaseEngine.__init__\<close> is ordered by
  priority, largest first; for each priority the rules of that priority are in the
  order of the input list; it holds exactly the input's rule records; and the list is
  a newly allocated one, every list that existed before the call (the caller's input
  among them) being unchanged.
\<close>

theorem init_sorts_stably:
  "sorted_wrt (\<lambda>a b. priority a \<ge> priority b) (HeartDiseaseEngine_init rules)
   \<and> (\<forall>k. filter (\<lambda>r. priority r = k) (HeartDiseaseEngine_init rules)
            = filter (\<lambda>r. priority r = k) rules)
   \<and> mset (HeartDiseaseEngine_init rules) = mset rules
   \<and> (rules_ref < length st \<longrightarrow>
        (case HeartDiseaseEngine_init_st st rules_ref of
           (st', self_rules) \<Rightarrow>
             take (length st) st' = st \<and> length st \<le> self_rules
             \<and> st' ! self_rules = HeartDiseaseEngine_init (st ! rules_ref)))"
proof -
  have "sorted (map (\<lambda>r. - priority r) (HeartDiseaseEngine_init rules))"
    unfolding HeartDiseaseEngine_init_def by (rule sorted_sort_key)
  then have s: "sorted_wrt (\<lambda>a b. priority a \<ge> priority b) (HeartDiseaseEngine_init rules)"
    by (simp add: sorted_map)
  have f: "filter (\<lambda>r. priority r = k) (HeartDiseaseEngine_init rules)
            = filter (\<lambda>r. priority r = k) rules" for k
    using sort_key_stable [of "\<lambda>r. - priority r" "- k" rules]
    by (simp add: HeartDiseaseEngine_init_def)
  have m: "mset (HeartDiseaseEngine_init rules) = mset rules"
    by (simp add: HeartDiseaseEngine_init_def)
  from s f m show ?thesis by (simp add: HeartDiseaseEngine_init_st_def)
qed

theorem init_sorts_stably_witness:
  "(0::nat) < length [[R2, K1, R1]]
   \<and> HeartDiseaseEngine_init_st [[R2, K1, R1]] 0 = ([[R2, K1, R1], [R1, R2, K1]], 1)"
proof -
  have h: "(0::nat) < length [[R2, K1, R1]]" by simp
  have e: "HeartDiseaseEngine_init [R2, K1, R1] = [R1, R2, K1]"
    by (simp add: HeartDiseaseEngine_init_def R1_def R2_def K1_def)
  from h init_sorts_stably [of "[R2, K1, R1]" 0 "[[R2, K1, R1]]"] e
  show ?thesis by (simp add: HeartDiseaseEngine_init_st_def)
qed

section \<open>Properties of run\<close>

text \<open>
  Claim C1. In the pair returned by \<open>run\<close>, for every rule list and every initial fact
  store, no rule identifier occurs twice in the firing order.
\<close>

theorem run_fires_once:
  assumes "run rules initial_facts = Inr (final_facts, fired_order)"
  shows "distinct fired_order"
proof -
  from assms have "snd (run_loop rules initial_facts [] True) = Inr (final_facts, fired_order)"
    by (simp add: run_def)
  from run_loop_invariant [where P = "\<lambda>f t. distinct t", OF this]
  show ?thesis by (simp add: fires_def)
qed

theorem run_fires_once_witness:
  "run [R1, R2] [(''a'', IntV 1)]
     = Inr ([(''a'', IntV 1), (''b'', IntV 1), (''c'', IntV 1)], [''R1'', ''R2''])
   \<and> distinct [''R1'', ''R2'']"
proof -
  have h: "run [R1, R2] [(''a'', IntV 1)]
     = Inr ([(''a'', IntV 1), (''b'', IntV 1), (''c'', IntV 1)], [''R1'', ''R2''])"
    by (rule run_scenario_A)
  from h run_fires_once [OF h] show ?thesis by (rule conjI)
qed

text \<open>
  Claim C2. \<open>run\<close> terminates on every rule list and every initial fact store
  (\<open>run_loop\<close> is a total function, its termination proved above): the loop started by
  \<open>run\<close> ends with the value of \<open>run\<close> after a number of passes that is at most the
  number of rules plus one.
\<close>

theorem run_pass_bound:
  "run_loop rules initial_facts [] True = (run_passes rules initial_facts, run rules initial_facts)
   \<and> run_passes rules initial_facts \<le> length rules + 1"
  using run_loop_passes [of rules initial_facts "[]" True] pending_le [of rules "[]"]
  by (simp add: run_passes_def run_def)

lemma map_of_fire: "map_of (fire r facts) = (map_of facts)(fst (conclusion r) \<mapsto> snd (conclusion r))"
  by (simp add: fire_def update_conv')

lemma keys_fire: "fst ` set (fire r facts) = insert (fst (conclusion r)) (fst ` set facts)"
  by (simp add: fire_def dom_update)

text \<open>
  Claim C4, as the code has it. If the initial fact store maps \<open>k\<close> to \<open>v\<close>, a rule with
  conclusion \<open>(k, v)\<close> never appears in the firing order, whatever its conditions,
  provided that rule identifiers are unique in the rule list and that every rule of
  the list whose conclusion key is \<open>k\<close> has the conclusion value \<open>v\<close> (as when no other
  rule writes \<open>k\<close>); the key \<open>k\<close> then still holds \<open>v\<close> at the end.
\<close>

theorem noop_rule_never_fires:
  assumes "run rules initial_facts = Inr (final_facts, fired_order)"
    and "r \<in> set rules" and "conclusion r = (k, v)"
    and "map_of initial_facts k = Some v"
    and "distinct (map identifier rules)"
    and "\<forall>r' \<in> set rules. fst (conclusion r') = k \<longrightarrow> snd (conclusion r') = v"
  shows "identifier r \<notin> set fired_order \<and> map_of final_facts k = Some v"
proof -
  let ?P = "\<lambda>f t. identifier r \<notin> set t \<and> map_of f k = Some v"
  have loop: "snd (run_loop rules initial_facts [] True) = Inr (final_facts, fired_order)"
    using assms(1) by (simp add: run_def)
  have init: "?P initial_facts []" using assms(4) by simp
  have step: "?P (fire r' f) (t @ [identifier r'])"
    if "r' \<in> set rules" "?P f t" "fires r' f t" for r' f t
  proof -
    have other_key: "fst (conclusion r') \<noteq> k"
    proof
      assume "fst (conclusion r') = k"
      with assms(6) that(1) have "snd (conclusion r') = v" by blast
      with \<open>fst (conclusion r') = k\<close> that(2,3) show False by (simp add: fires_def)
    qed
    with assms(3) have "r' \<noteq> r" by auto
    with assms(2,5) that(1) have "identifier r' \<noteq> identifier r"
      by (auto simp: distinct_map inj_on_def)
    with that(2) other_key show ?thesis by (simp add: map_of_fire)
  qed
  show ?thesis
    by (rule run_loop_invariant [where P = ?P, OF loop init], erule (2) step)
qed

theorem noop_rule_never_fires_witness:
  "run [R1, R2] [(''b'', IntV 1)] = Inr ([(''b'', IntV 1), (''c'', IntV 1)], [''R2''])
   \<and> R1 \<in> set [R1, R2] \<and> conclusion R1 = (''b'', IntV 1)
   \<and> map_of [(''b'', IntV 1)] ''b'' = Some (IntV 1)
   \<and> distinct (map identifier [R1, R2])
   \<and> identifier R1 \<notin> set [''R2''] \<and> map_of [(''b'', IntV 1), (''c'', IntV 1)] ''b'' = Some (IntV 1)"
proof -
  have h2: "R1 \<in> set [R1, R2]" by simp
  have h3: "conclusion R1 = (''b'', IntV 1)" by (simp add: R1_def)
  have h4: "map_of [(''b'', IntV 1)] ''b'' = Some (IntV 1)" by simp
  have h5: "distinct (map identifier [R1, R2])" by (simp add: R1_def R2_def)
  have h6: "\<forall>r' \<in> set [R1, R2]. fst (conclusion r') = ''b'' \<longrightarrow> snd (conclusion r') = IntV 1"
    by (simp add: R1_def R2_def)
  note t = noop_rule_never_fires [OF run_scenario_B h2 h3 h4 h5 h6]
  from run_scenario_B h2 h3 h4 h5 conjunct1 [OF t] conjunct2 [OF t]
  show ?thesis by (intro conjI)
qed

text \<open>Claim C4 as stated fails when another rule writes the key first: with the facts
  \<open>a = 1, k = 1\<close>, rule \<open>K2\<close> sets \<open>k\<close> to 2 and then \<open>K1\<close>, whose conclusion \<open>k = 1\<close> was in
  the initial facts, fires.\<close>

theorem noop_rule_fires:
  "K1 \<in> set (HeartDiseaseEngine_init [K1, K2]) \<and> conclusion K1 = (''k'', IntV 1)
   \<and> map_of [(''a'', IntV 1), (''k'', IntV 1)] ''k'' = Some (IntV 1)
   \<and> run (HeartDiseaseEngine_init [K1, K2]) [(''a'', IntV 1), (''k'', IntV 1)]
       = Inr ([(''a'', IntV 1), (''k'', IntV 1)], [''K2'', ''K1''])
   \<and> identifier K1 \<in> set [''K2'', ''K1'']"
  using run_two_writers by (simp add: HeartDiseaseEngine_init_def K1_def K2_def)

lemma fold_fire_keys: "fst ` set facts \<subseteq> fst ` set (fold fire rs facts)"
proof (induction rs arbitrary: facts)
  case Nil
  show ?case by simp
next
  case (Cons r rs)
  have "fst ` set facts \<subseteq> fst ` set (fire r facts)" by (auto simp: keys_fire)
  also have "\<dots> \<subseteq> fst ` set (fold fire rs (fire r facts))" by (rule Cons.IH)
  finally show ?case by simp
qed

lemma fold_fire_changed:
  "map_of (fold fire rs facts) k \<noteq> map_of facts k \<Longrightarrow> \<exists>r \<in> set rs. fst (conclusion r) = k"
proof (induction rs arbitrary: facts)
  case Nil
  then show ?case by simp
next
  case (Cons r rs)
  show ?case
  proof (cases "fst (conclusion r) = k")
    case True
    then show ?thesis by simp
  next
    case False
    then have "map_of (fire r facts) k = map_of facts k" by (simp add: map_of_fire)
    with Cons.prems have "map_of (fold fire rs (fire r facts)) k \<noteq> map_of (fire r facts) k"
      by simp
    from Cons.IH [OF this] show ?thesis by simp
  qed
qed

lemma find_by_identifier:
  "distinct (map identifier rules) \<Longrightarrow> r \<in> set rules \<Longrightarrow>
     find (\<lambda>r'. identifier r' = identifier r) rules = Some r"
  by (induction rules) (auto simp: image_iff)

lemma apply_fired_rules:
  assumes "distinct (map identifier rules)" "set rs \<subseteq> set rules"
  shows "apply_fired rules (map identifier rs) facts = fold fire rs facts"
  using assms(2)
proof (induction rs arbitrary: facts)
  case Nil
  show ?case by (simp add: apply_fired_def)
next
  case (Cons r rs)
  then have "r \<in> set rules" "set rs \<subseteq> set rules" by simp_all
  with Cons.IH [of "fire r facts"] find_by_identifier [OF assms(1), of r]
  show ?case by (simp add: apply_fired_def)
qed

text \<open>
  Claim C10. The final facts are the initial facts updated, in firing order, with the
  conclusions of the rules that fired, whose identifiers are the firing order; with
  unique identifiers these are the rules named by the firing order. No key of the
  initial facts is missing from the final facts, and a key whose final value is new or
  differs from its initial value is the conclusion key of a rule whose identifier is
  in the firing order.
\<close>

theorem final_facts_from_fired:
  assumes "run rules initial_facts = Inr (final_facts, fired_order)"
  shows "(\<exists>rs. set rs \<subseteq> set rules \<and> map identifier rs = fired_order
            \<and> final_facts = fold fire rs initial_facts)
    \<and> (distinct (map identifier rules)
         \<longrightarrow> final_facts = apply_fired rules fired_order initial_facts)
    \<and> fst ` set initial_facts \<subseteq> fst ` set final_facts
    \<and> (\<forall>k. map_of final_facts k \<noteq> map_of initial_facts k
         \<longrightarrow> (\<exists>r \<in> set rules. identifier r \<in> set fired_order \<and> fst (conclusion r) = k))"
proof -
  let ?P = "\<lambda>f t. \<exists>rs. set rs \<subseteq> set rules \<and> map identifier rs = t
                       \<and> f = fold fire rs initial_facts"
  have loop: "snd (run_loop rules initial_facts [] True) = Inr (final_facts, fired_order)"
    using assms by (simp add: run_def)
  have init: "?P initial_facts []" by simp
  have step: "?P (fire r f) (t @ [identifier r])"
    if "r \<in> set rules" "?P f t" "fires r f t" for r f t
  proof -
    from that(2) obtain rs where rs: "set rs \<subseteq> set rules" "map identifier rs = t"
      "f = fold fire rs initial_facts" by blast
    with that(1) have "set (rs @ [r]) \<subseteq> set rules \<and> map identifier (rs @ [r]) = t @ [identifier r]
        \<and> fire r f = fold fire (rs @ [r]) initial_facts"
      by simp
    then show ?thesis by blast
  qed
  have "?P final_facts fired_order"
    by (rule run_loop_invariant [where P = ?P, OF loop init], erule (2) step)
  then obtain rs where rs: "set rs \<subseteq> set rules" "map identifier rs = fired_order"
    "final_facts = fold fire rs initial_facts" by blast
  have a: "\<exists>rs. set rs \<subseteq> set rules \<and> map identifier rs = fired_order
            \<and> final_facts = fold fire rs initial_facts"
    using rs by blast
  have b: "distinct (map identifier rules)
         \<longrightarrow> final_facts = apply_fired rules fired_order initial_facts"
    using apply_fired_rules [OF _ rs(1), of initial_facts] rs(2,3) by auto
  have c: "fst ` set initial_facts \<subseteq> fst ` set final_facts"
    unfolding rs(3) by (rule fold_fire_keys)
  have d: "\<forall>k. map_of final_facts k \<noteq> map_of initial_facts k
         \<longrightarrow> (\<exists>r \<in> set rules. identifier r \<in> set fired_order \<and> fst (conclusion r) = k)"
  proof (intro allI impI)
    fix k assume "map_of final_facts k \<noteq> map_of initial_facts k"
    then obtain r where "r \<in> set rs" "fst (conclusion r) = k"
      unfolding rs(3) using fold_fire_changed by blast
    moreover from this rs(1,2) have "r \<in> set rules" "identifier r \<in> set fired_order"
      by auto
    ultimately show "\<exists>r \<in> set rules. identifier r \<in> set fired_order \<and> fst (conclusion r) = k"
      by blast
  qed
  from a b c d show ?thesis by (intro conjI)
qed

theorem final_facts_from_fired_witness:
  "run [R1, R2] [(''a'', IntV 1)]
     = Inr ([(''a'', IntV 1), (''b'', IntV 1), (''c'', IntV 1)], [''R1'', ''R2''])
   \<and> distinct (map identifier [R1, R2])
   \<and> [(''a'', IntV 1), (''b'', IntV 1), (''c'', IntV 1)]
       = apply_fired [R1, R2] [''R1'', ''R2''] [(''a'', IntV 1)]
   \<and> fst ` set [(''a'', IntV 1)] \<subseteq> fst ` set [(''a'', IntV 1), (''b'', IntV 1), (''c'', IntV 1)]
   \<and> map_of [(''a'', IntV 1), (''b'', IntV 1), (''c'', IntV 1)] ''b'' \<noteq> map_of [(''a'', IntV 1)] ''b''
   \<and> (\<exists>r \<in> set [R1, R2]. identifier r \<in> set [''R1'', ''R2''] \<and> fst (conclusion r) = ''b'')"
proof -
  have d: "distinct (map identifier [R1, R2])" by (simp add: R1_def R2_def)
  have c: "map_of [(''a'', IntV 1), (''b'', IntV 1), (''c'', IntV 1)] ''b''
             \<noteq> map_of [(''a'', IntV 1)] ''b''"
    by simp
  note t = final_facts_from_fired [OF run_scenario_A]
  note t2 = conjunct2 [OF t]
  note t3 = conjunct2 [OF t2]
  note t4 = conjunct2 [OF t3]
  from run_scenario_A d mp [OF conjunct1 [OF t2] d] conjunct1 [OF t3] c
    mp [OF spec [OF t4, of "''b''"] c]
  show ?thesis by (intro conjI)
qed

subsection \<open>Firing order and priorities\<close>

lemma run_pass_append:
  "run_pass (xs @ ys) f t n =
     (case run_pass xs f t n of Inl e \<Rightarrow> Inl e | Inr (f', t', n') \<Rightarrow> run_pass ys f' t' n')"
proof (induction xs arbitrary: f t n)
  case Nil
  show ?case by simp
next
  case (Cons rule rest)
  show ?case
  proof (cases rule f t rule: rule_cases)
    case fire
    with Cons.IH show ?thesis by (simp add: run_pass_fire)
  next
    case (raise e)
    then show ?thesis by (simp add: run_pass_raise)
  next
    case skip
    with Cons.IH show ?thesis by (simp add: run_pass_skip)
  qed
qed

lemma run_pass_untouched:
  assumes "run_pass xs f t n = Inr (f', t', n')"
    and "\<forall>r \<in> set xs. fst (conclusion r) \<notin> K"
  shows "\<forall>k \<in> K. map_of f' k = map_of f k"
proof -
  let ?P = "\<lambda>g (u :: string list). \<forall>k \<in> K. map_of g k = map_of f k"
  have "?P f' t'"
  proof (rule run_pass_invariant [where P = ?P, OF assms(1)])
    show "?P f t" by simp
  next
    fix r g u assume "r \<in> set xs" "?P g u"
    with assms(2) show "?P (fire r g) (u @ [identifier r])"
      by (auto simp: map_of_fire)
  qed
  then show ?thesis .
qed

lemma check_condition_cong:
  "map_of f (fst c) = map_of g (fst c) \<Longrightarrow> check_condition c f = check_condition c g"
  by (cases c) simp

lemma all_conditions_cong:
  "\<forall>k \<in> fst ` set cs. map_of f k = map_of g k \<Longrightarrow> all_conditions cs f = all_conditions cs g"
proof (induction cs)
  case Nil
  show ?case by simp
next
  case (Cons c cs)
  from Cons.prems have "check_condition c f = check_condition c g"
    by (intro check_condition_cong) simp
  moreover from Cons have "all_conditions cs f = all_conditions cs g"
    by simp
  ultimately show ?case by (simp split: sum.splits)
qed

lemma fires_cong:
  assumes "\<forall>k \<in> rule_keys r. map_of f k = map_of g k"
    and "identifier r \<notin> set t" and "fires r g []"
  shows "fires r f t"
proof -
  from assms(1) have "all_conditions (conditions r) f = all_conditions (conditions r) g"
    by (intro all_conditions_cong) (simp add: rule_keys_def)
  moreover from assms(1) have "map_of f (fst (conclusion r)) = map_of g (fst (conclusion r))"
    by (simp add: rule_keys_def)
  ultimately show ?thesis using assms(2,3) by (simp add: fires_def)
qed

lemma run_loop_first_pass:
  assumes "snd (run_loop rules f t True) = Inr (ff, tt)"
  obtains f1 t1 n1 where "run_pass rules f t False = Inr (f1, t1, n1)"
    and "snd (run_loop rules f1 t1 n1) = Inr (ff, tt)"
proof (cases "run_pass rules f t False")
  case (Inl e)
  with assms show ?thesis by (simp add: run_loop.simps [of rules f])
next
  case (Inr res)
  obtain f1 t1 n1 where res: "res = (f1, t1, n1)" by (cases res)
  with Inr have pass: "run_pass rules f t False = Inr (f1, t1, n1)" by simp
  with assms have "snd (run_loop rules f1 t1 n1) = Inr (ff, tt)"
    by (simp add: run_loop_unfold)
  with pass show ?thesis by (rule that)
qed

lemma run_loop_extends:
  assumes "snd (run_loop rules f t n) = Inr (ff, tt)"
  shows "\<exists>more. tt = t @ more"
proof -
  let ?P = "\<lambda>(g :: facts) u. \<exists>more. u = t @ more"
  show ?thesis
  proof (rule run_loop_invariant [where P = ?P, OF assms])
    show "?P f t" by simp
  next
    fix r g u assume "?P g u"
    then show "?P (fire r g) (u @ [identifier r])" by auto
  qed
qed

lemma precedes_append: "precedes a b (xs @ a # ys @ b # zs)"
  by (induction xs) simp_all

lemma sorted_desc_split:
  assumes "sorted_wrt (\<lambda>a b. priority b \<le> priority a) S"
    and "hi \<in> set S" "lo \<in> set S" "priority lo < priority hi"
  obtains A B C where "S = A @ hi # B @ lo # C"
proof -
  from split_list [OF assms(2)] obtain A rest where S: "S = A @ hi # rest" by blast
  have "lo \<notin> set A"
  proof
    assume "lo \<in> set A"
    with assms(1) S have "priority hi \<le> priority lo" by (simp add: sorted_wrt_append)
    with assms(4) show False by simp
  qed
  moreover from assms(4) have "lo \<noteq> hi" by auto
  ultimately have "lo \<in> set rest" using assms(3) S by simp
  from split_list [OF this] obtain B C where "rest = B @ lo # C" by blast
  with S have "S = A @ hi # B @ lo # C" by simp
  then show ?thesis by (rule that)
qed

lemma init_sorted: "sorted_wrt (\<lambda>a b. priority b \<le> priority a) (HeartDiseaseEngine_init rules)"
proof -
  have "sorted (map (\<lambda>r. - priority r) (HeartDiseaseEngine_init rules))"
    unfolding HeartDiseaseEngine_init_def by (rule sorted_sort_key)
  then show ?thesis by (simp add: sorted_map)
qed

lemma init_set: "set (HeartDiseaseEngine_init rules) = set rules"
  by (simp add: HeartDiseaseEngine_init_def)

lemma init_distinct:
  "distinct (map identifier rules) \<Longrightarrow> distinct (map identifier (HeartDiseaseEngine_init rules))"
proof -
  assume d: "distinct (map identifier rules)"
  have "mset (map identifier (HeartDiseaseEngine_init rules)) = mset (map identifier rules)"
    by (simp add: HeartDiseaseEngine_init_def)
  from mset_eq_imp_distinct_iff [OF this] d show ?thesis by simp
qed

text \<open>A pass over a segment of the rule list whose rules write no key of \<open>K\<close>.\<close>

lemma run_pass_segment:
  assumes "run_pass xs f t n = Inr (f', t', n')"
    and "\<forall>r \<in> set xs. fst (conclusion r) \<notin> K"
  obtains added where "t' = t @ added" "set added \<subseteq> identifier ` set xs"
    "\<forall>k \<in> K. map_of f' k = map_of f k"
proof -
  from run_pass_extends [OF assms(1)] obtain added where
    "t' = t @ added" "set added \<subseteq> identifier ` set xs" by auto
  moreover note run_pass_untouched [OF assms]
  ultimately show ?thesis by (rule that)
qed

lemma run_four_rules:
  "run (HeartDiseaseEngine_init [P0, P1, P2, P3]) [(''a'', IntV 1), (''x'', IntV 1), (''z'', IntV 1)]
     = Inr ([(''a'', IntV 1), (''x'', IntV 1), (''z'', IntV 1), (''w'', IntV 1), (''y'', IntV 1)],
            [''P3'', ''P1'', ''P0'', ''P2''])"
  by code_simp

lemma run_three_rules:
  "run (HeartDiseaseEngine_init [P1, R1, P2]) [(''a'', IntV 1), (''x'', IntV 1), (''z'', IntV 1)]
     = Inr ([(''a'', IntV 1), (''x'', IntV 1), (''z'', IntV 1), (''b'', IntV 1), (''y'', IntV 1),
             (''w'', IntV 1)],
            [''R1'', ''P2'', ''P1''])"
  by code_simp

lemma eligible_P2_P1:
  "fires P2 [(''a'', IntV 1), (''x'', IntV 1), (''z'', IntV 1)] []"
  "fires P1 [(''a'', IntV 1), (''x'', IntV 1), (''z'', IntV 1)] []"
  "rule_keys P2 \<inter> rule_keys P1 = {}"
  "priority P1 < priority P2"
  by (simp_all add: fires_def rule_keys_def P1_def P2_def ops_lookup py_eq_def)

text \<open>
  Claim C7, as the code has it. Take a rule list with unique identifiers and in it two
  rules of different priorities that share no key and are both eligible in the initial
  facts (conditions true, conclusion not in the store), such that no other rule of the
  list has a conclusion key among the keys of these two rules. Whenever \<open>run\<close>, on the
  list sorted by the constructor, returns, the identifier of the rule of higher
  priority occurs in the firing order before the identifier of the other rule.
\<close>

theorem priority_order_respected:
  assumes run: "run (HeartDiseaseEngine_init rules) initial_facts = Inr (final_facts, fired_order)"
    and hi: "hi \<in> set rules" and lo: "lo \<in> set rules" and prio: "priority lo < priority hi"
    and ids: "distinct (map identifier rules)"
    and disj: "rule_keys hi \<inter> rule_keys lo = {}"
    and others: "\<forall>r \<in> set rules. r \<noteq> hi \<and> r \<noteq> lo
                   \<longrightarrow> fst (conclusion r) \<notin> rule_keys hi \<union> rule_keys lo"
    and hi_eligible: "fires hi initial_facts []"
    and lo_eligible: "fires lo initial_facts []"
  shows "precedes (identifier hi) (identifier lo) fired_order"
proof -
  let ?S = "HeartDiseaseEngine_init rules"
  let ?K = "rule_keys hi \<union> rule_keys lo"
  from hi lo have "hi \<in> set ?S" "lo \<in> set ?S" by (simp_all add: init_set)
  from sorted_desc_split [OF init_sorted this prio]
  obtain A B C where S: "?S = A @ hi # B @ lo # C" by blast
  have dS: "distinct (map identifier (A @ hi # B @ lo # C))"
    using init_distinct [OF ids] S by simp
  have sub: "set A \<subseteq> set rules" "set B \<subseteq> set rules"
    using init_set [of rules] S by auto
  have A_other: "\<forall>r \<in> set A. fst (conclusion r) \<notin> ?K"
    using others sub(1) dS by auto
  have B_other: "\<forall>r \<in> set B. fst (conclusion r) \<notin> rule_keys lo"
    using others sub(2) dS by auto
  have hi_concl: "fst (conclusion hi) \<notin> rule_keys lo"
    using disj by (auto simp: rule_keys_def)
  have idA: "identifier hi \<notin> identifier ` set A" "identifier lo \<notin> identifier ` set A"
    and idB: "identifier lo \<notin> identifier ` set B" and idne: "identifier lo \<noteq> identifier hi"
    using dS by auto

  from run have "snd (run_loop ?S initial_facts [] True) = Inr (final_facts, fired_order)"
    by (simp add: run_def)
  then obtain f1 t1 n1 where pass: "run_pass ?S initial_facts [] False = Inr (f1, t1, n1)"
    and rest: "snd (run_loop ?S f1 t1 n1) = Inr (final_facts, fired_order)"
    by (rule run_loop_first_pass)
  from run_loop_extends [OF rest] obtain more where fired: "fired_order = t1 @ more" by blast

  \<comment> \<open>the rules before \<open>hi\<close>\<close>
  from pass S obtain fA tA nA where passA: "run_pass A initial_facts [] False = Inr (fA, tA, nA)"
    and pass_hi: "run_pass (hi # B @ lo # C) fA tA nA = Inr (f1, t1, n1)"
    by (auto simp: run_pass_append [of A] split: sum.splits)
  from run_pass_segment [OF passA A_other] obtain addedA where
    tA: "tA = [] @ addedA" "set addedA \<subseteq> identifier ` set A"
    and fA: "\<forall>k \<in> ?K. map_of fA k = map_of initial_facts k"
    by blast
  have "fires hi fA tA"
    using fA tA idA(1) by (intro fires_cong [OF _ _ hi_eligible]) auto
  with pass_hi have pass_B_lo:
    "run_pass (B @ lo # C) (fire hi fA) (tA @ [identifier hi]) True = Inr (f1, t1, n1)"
    by (simp add: run_pass_fire)

  \<comment> \<open>the rules between \<open>hi\<close> and \<open>lo\<close>\<close>
  then obtain fB tB nB where
    passB: "run_pass B (fire hi fA) (tA @ [identifier hi]) True = Inr (fB, tB, nB)"
    and pass_lo: "run_pass (lo # C) fB tB nB = Inr (f1, t1, n1)"
    by (auto simp: run_pass_append [of B] split: sum.splits)
  from run_pass_segment [OF passB B_other] obtain addedB where
    tB: "tB = (tA @ [identifier hi]) @ addedB" "set addedB \<subseteq> identifier ` set B"
    and fB: "\<forall>k \<in> rule_keys lo. map_of fB k = map_of (fire hi fA) k"
    by blast
  have "\<forall>k \<in> rule_keys lo. map_of fB k = map_of initial_facts k"
    using fB fA hi_concl by (auto simp: map_of_fire)
  moreover have "identifier lo \<notin> set tB"
    using tB tA idA(2) idB idne by auto
  ultimately have "fires lo fB tB"
    by (intro fires_cong [OF _ _ lo_eligible])
  with pass_lo have
    "run_pass C (fire lo fB) (tB @ [identifier lo]) True = Inr (f1, t1, n1)"
    by (simp add: run_pass_fire)
  from run_pass_extends [OF this] obtain addedC where "t1 = (tB @ [identifier lo]) @ addedC"
    by blast
  with fired tB have
    "fired_order = tA @ identifier hi # addedB @ identifier lo # (addedC @ more)"
    by simp
  then show ?thesis by (simp only: precedes_append)
qed

theorem priority_order_respected_witness:
  "run (HeartDiseaseEngine_init [P1, R1, P2]) [(''a'', IntV 1), (''x'', IntV 1), (''z'', IntV 1)]
     = Inr ([(''a'', IntV 1), (''x'', IntV 1), (''z'', IntV 1), (''b'', IntV 1), (''y'', IntV 1),
             (''w'', IntV 1)],
            [''R1'', ''P2'', ''P1''])
   \<and> P2 \<in> set [P1, R1, P2] \<and> P1 \<in> set [P1, R1, P2] \<and> priority P1 < priority P2
   \<and> distinct (map identifier [P1, R1, P2]) \<and> rule_keys P2 \<inter> rule_keys P1 = {}
   \<and> fires P2 [(''a'', IntV 1), (''x'', IntV 1), (''z'', IntV 1)] []
   \<and> fires P1 [(''a'', IntV 1), (''x'', IntV 1), (''z'', IntV 1)] []
   \<and> precedes (identifier P2) (identifier P1) [''R1'', ''P2'', ''P1'']"
proof -
  have h2: "P2 \<in> set [P1, R1, P2]" and h3: "P1 \<in> set [P1, R1, P2]" by simp_all
  have h5: "distinct (map identifier [P1, R1, P2])" by (simp add: P1_def P2_def R1_def)
  have h7: "\<forall>r \<in> set [P1, R1, P2]. r \<noteq> P2 \<and> r \<noteq> P1
              \<longrightarrow> fst (conclusion r) \<notin> rule_keys P2 \<union> rule_keys P1"
    by (simp add: rule_keys_def P1_def P2_def R1_def)
  note t = priority_order_respected [OF run_three_rules h2 h3 eligible_P2_P1(4) h5
      eligible_P2_P1(3) h7 eligible_P2_P1(1,2)]
  from run_three_rules h2 h3 eligible_P2_P1(4) h5 eligible_P2_P1(3) eligible_P2_P1(1,2) t
  show ?thesis by (intro conjI)
qed

text \<open>Claim C7 as stated fails when a third rule writes a key of the two rules: \<open>P2\<close> and
  \<open>P1\<close> share no key and are both eligible in the facts \<open>a = 1, x = 1, z = 1\<close>, but \<open>P3\<close>
  first sets \<open>x\<close> to 0, so that \<open>P1\<close> fires in the first pass and \<open>P2\<close> only in the second,
  after \<open>P0\<close> has set \<open>x\<close> back to 1.\<close>

theorem priority_order_violated:
  "P2 \<in> set [P0, P1, P2, P3] \<and> P1 \<in> set [P0, P1, P2, P3]
   \<and> priority P1 < priority P2 \<and> rule_keys P2 \<inter> rule_keys P1 = {}
   \<and> fires P2 [(''a'', IntV 1), (''x'', IntV 1), (''z'', IntV 1)] []
   \<and> fires P1 [(''a'', IntV 1), (''x'', IntV 1), (''z'', IntV 1)] []
   \<and> run (HeartDiseaseEngine_init [P0, P1, P2, P3])
         [(''a'', IntV 1), (''x'', IntV 1), (''z'', IntV 1)]
       = Inr ([(''a'', IntV 1), (''x'', IntV 1), (''z'', IntV 1), (''w'', IntV 1), (''y'', IntV 1)],
              [''P3'', ''P1'', ''P0'', ''P2''])
   \<and> \<not> precedes (identifier P2) (identifier P1) [''P3'', ''P1'', ''P0'', ''P2'']
   \<and> precedes (identifier P1) (identifier P2) [''P3'', ''P1'', ''P0'', ''P2'']"
proof -
  have "\<not> precedes (identifier P2) (identifier P1) [''P3'', ''P1'', ''P0'', ''P2'']"
    "precedes (identifier P1) (identifier P2) [''P3'', ''P1'', ''P0'', ''P2'']"
    by (simp_all add: P1_def P2_def)
  with eligible_P2_P1 run_four_rules show ?thesis by simp
qed

text \<open>
  Claim C9. \<open>run\<close> works on a copy: when \<open>run\<close> is called with a reference to the
  caller's dictionary, that dictionary and every other dictionary that existed before
  the call are unchanged when \<open>run\<close> returns or raises; the returned reference is a
  new one, and the dictionary behind it is the final fact store of the run.
\<close>

theorem run_copies_initial_facts:
  assumes "initial_facts < length st"
    and "run_st rules st initial_facts = (st', result)"
  shows "st' ! initial_facts = st ! initial_facts
    \<and> take (length st) st' = st
    \<and> returned (st', result) = run rules (st ! initial_facts)
    \<and> (\<forall>facts fired. result = Inr (facts, fired) \<longrightarrow> facts = length st \<and> facts < length st')"
proof -
  from run_st_frame [of st rules initial_facts] assms(2)
  have t: "take (length st) st' = st" and l: "length st' = Suc (length st)" by simp_all
  from t assms(1) have "st' ! initial_facts = st ! initial_facts"
    by (metis nth_take)
  moreover have "returned (st', result) = run rules (st ! initial_facts)"
    using run_st_returned [of rules st initial_facts] assms(2) by simp
  moreover have "\<forall>facts fired. result = Inr (facts, fired) \<longrightarrow> facts = length st \<and> facts < length st'"
    using run_st_reference assms(2) l by fastforce
  ultimately show ?thesis using t by simp
qed

theorem run_copies_initial_facts_witness:
  "(0::nat) < length [[(''a'', IntV 1)]]
   \<and> run_st [R1, R2] [[(''a'', IntV 1)]] 0
       = ([[(''a'', IntV 1)], [(''a'', IntV 1), (''b'', IntV 1), (''c'', IntV 1)]],
          Inr (1, [''R1'', ''R2'']))
   \<and> [[(''a'', IntV 1)], [(''a'', IntV 1), (''b'', IntV 1), (''c'', IntV 1)]] ! 0
       = [[(''a'', IntV 1)]] ! 0
   \<and> take (length [[(''a'', IntV 1)]])
        [[(''a'', IntV 1)], [(''a'', IntV 1), (''b'', IntV 1), (''c'', IntV 1)]]
       = [[(''a'', IntV 1)]]
   \<and> returned ([[(''a'', IntV 1)], [(''a'', IntV 1), (''b'', IntV 1), (''c'', IntV 1)]],
                 Inr (1, [''R1'', ''R2'']))
       = run [R1, R2] ([[(''a'', IntV 1)]] ! 0)
   \<and> (1::nat) = length [[(''a'', IntV 1)]]
   \<and> (1::nat) < length [[(''a'', IntV 1)], [(''a'', IntV 1), (''b'', IntV 1), (''c'', IntV 1)]]"
proof -
  have h: "(0::nat) < length [[(''a'', IntV 1)]]" by simp
  note t = run_copies_initial_facts [OF h run_st_scenario_A]
  note t2 = conjunct2 [OF t]
  note t3 = conjunct2 [OF t2]
  note t4 = mp [OF spec [OF spec [OF conjunct2 [OF t3], of 1], of "[''R1'', ''R2'']"] refl]
  from h run_st_scenario_A conjunct1 [OF t] conjunct1 [OF t2] conjunct1 [OF t3]
    conjunct1 [OF t4] conjunct2 [OF t4]
  show ?thesis by (intro conjI)
qed

text \<open>
  Claim C3. \<open>run\<close> is deterministic: two calls, one after the other, with the same rule
  list and a reference to the same initial fact store return the same result (the
  same final facts and the same firing order, or the same exception), which is the
  value of the function \<open>run\<close> at the rule list and the content of the initial store.
\<close>

theorem run_deterministic:
  assumes "initial_facts < length st"
    and "run_st rules st initial_facts = (st1, result1)"
    and "run_st rules st1 initial_facts = (st2, result2)"
  shows "returned (st2, result2) = returned (st1, result1)
    \<and> returned (st1, result1) = run rules (st ! initial_facts)"
proof -
  from run_st_frame [of st rules initial_facts] assms(2)
  have "take (length st) st1 = st" by simp
  with assms(1) have same: "st1 ! initial_facts = st ! initial_facts"
    by (metis nth_take)
  have "returned (st1, result1) = run rules (st ! initial_facts)"
    using run_st_returned [of rules st initial_facts] assms(2) by simp
  moreover have "returned (st2, result2) = run rules (st1 ! initial_facts)"
    using run_st_returned [of rules st1 initial_facts] assms(3) by simp
  ultimately show ?thesis using same by simp
qed

theorem run_deterministic_witness:
  "(0::nat) < length [[(''a'', IntV 1)]]
   \<and> returned ([[(''a'', IntV 1)], [(''a'', IntV 1), (''b'', IntV 1), (''c'', IntV 1)],
                 [(''a'', IntV 1), (''b'', IntV 1), (''c'', IntV 1)]], Inr (2, [''R1'', ''R2'']))
       = returned ([[(''a'', IntV 1)], [(''a'', IntV 1), (''b'', IntV 1), (''c'', IntV 1)]],
                   Inr (1, [''R1'', ''R2'']))"
proof -
  have h: "(0::nat) < length [[(''a'', IntV 1)]]" by simp
  note t = run_deterministic [OF h run_st_scenario_A run_st_scenario_A_again]
  from h conjunct1 [OF t] show ?thesis by (intro conjI)
qed

section \<open>Properties of build\_graph\_dot\<close>

subsection \<open>Reading statements\<close>






subsection \<open>Decimal text\<close>






subsection \<open>Lines of a text\<close>




subsection \<open>Reading the exported text\<close>
























end
